theory Spec2Isabelle
  imports Main
begin

section \<open>JavaScript values\<close>

text \<open>
  The values the library handles. Objects, arrays and functions live in a store and are
  known by their address: two object values are identical (\<open>===\<close>) exactly when their
  addresses are equal. Numbers are integers here: fractions, infinities and \<open>NaN\<close> (the
  one value that is not \<open>===\<close> to itself) are outside the model.
\<close>

type_synonym addr = nat

datatype jsval = Undefined | Null | Bool bool | Num int | Str string | Obj addr

datatype error = TypeError | ArityMismatch

text \<open>
  Reading \<open>xs[i]\<close> from an array or an \<open>arguments\<close> object: an index past the end gives
  \<open>undefined\<close>, it does not raise.
\<close>

definition js_index :: "jsval list \<Rightarrow> nat \<Rightarrow> jsval" where
  "js_index xs i = (if i < length xs then xs ! i else Undefined)"

text \<open>
  Writing \<open>xs[i] = v\<close>: inside the array the element is replaced; past the end the array
  grows up to index \<open>i\<close> (the holes in between read as \<open>undefined\<close>).
\<close>

definition js_assign :: "jsval list \<Rightarrow> nat \<Rightarrow> jsval \<Rightarrow> jsval list" where
  "js_assign xs i v =
     (if i < length xs then xs[i := v]
      else xs @ replicate (i - length xs) Undefined @ [v])"

section \<open>Partial application (\<open>partial\<close>)\<close>

text \<open>
  Modelled from the spec: the module object \<open>lamb\<close> is created outside the files at hand;
  the placeholder, which is that object (\<open>var _ = lamb\<close>), is "a single process-wide,
  identity-comparable sentinel value", "not equal to any user value": an object at a
  fixed address. (The example stores of the later sections show object graphs of a caller
  only; the module object is not among them.)
\<close>

definition lamb :: jsval where
  "lamb = Obj 0"

definition placeholder :: jsval where
  "placeholder = lamb"

text \<open>
  The first loop of the function that \<open>partial\<close> returns:
  \<^verbatim>\<open>for (var i = 0, boundArg; i < argsLen; i++) {
      boundArg = args[i];
      newArgs[i] = boundArg === _ ? arguments[lastIdx++] : boundArg;
  }\<close>
  The loop state is \<open>i\<close>, \<open>lastIdx\<close> and \<open>newArgs\<close>; all three are live after the loop.
\<close>

function bound_loop ::
  "jsval list \<Rightarrow> jsval list \<Rightarrow> nat \<Rightarrow> nat \<Rightarrow> jsval list \<Rightarrow> nat \<times> nat \<times> jsval list" where
  "bound_loop args arguments i lastIdx newArgs =
     (if i < length args then
        (let boundArg = js_index args i in
         if boundArg = placeholder
         then bound_loop args arguments (i + 1) (lastIdx + 1)
                (js_assign newArgs i (js_index arguments lastIdx))
         else bound_loop args arguments (i + 1) lastIdx (js_assign newArgs i boundArg))
      else (i, lastIdx, newArgs))"
  by pat_completeness auto
termination
  by (relation "measure (\<lambda>(args, arguments, i, lastIdx, newArgs). length args - i)") auto

text \<open>
  The second loop:
  \<^verbatim>\<open>for (var len = arguments.length; lastIdx < len; lastIdx++) {
      newArgs[i++] = arguments[lastIdx];
  }\<close>
\<close>

function rest_loop :: "jsval list \<Rightarrow> nat \<Rightarrow> nat \<Rightarrow> jsval list \<Rightarrow> jsval list" where
  "rest_loop arguments i lastIdx newArgs =
     (if lastIdx < length arguments
      then rest_loop arguments (i + 1) (lastIdx + 1)
             (js_assign newArgs i (js_index arguments lastIdx))
      else newArgs)"
  by pat_completeness auto
termination
  by (relation "measure (\<lambda>(arguments, i, lastIdx, newArgs). length arguments - lastIdx)") auto

declare bound_loop.simps [simp del]
declare rest_loop.simps [simp del]

text \<open>
  The argument vector \<open>newArgs\<close> that the returned function hands to \<open>fn\<close>: both loops,
  started from \<open>lastIdx = 0\<close> and \<open>newArgs = []\<close>.
\<close>

definition partial_newArgs :: "jsval list \<Rightarrow> jsval list \<Rightarrow> jsval list" where
  "partial_newArgs args arguments =
     (case bound_loop args arguments 0 0 [] of
        (i, lastIdx, newArgs) \<Rightarrow> rest_loop arguments i lastIdx newArgs)"

text \<open>
  \<open>partial(fn, ...args)\<close>. The helper \<open>_argsTail\<close> is defined outside the files at hand; by
  the documented signature of \<open>partial\<close> it yields the arguments after \<open>fn\<close>, which are the
  parameter \<open>args\<close> here (the bound slots). A function is modelled by what it returns for
  a receiver \<open>this\<close> and an argument list; the returned function ends in
  \<open>fn.apply(this, newArgs)\<close>.
\<close>

definition partial :: "(jsval \<Rightarrow> jsval list \<Rightarrow> 'r) \<Rightarrow> jsval list \<Rightarrow> jsval \<Rightarrow> jsval list \<Rightarrow> 'r" where
  "partial fn args = (\<lambda>this arguments. fn this (partial_newArgs args arguments))"

text \<open>
  The substitution as the specification words it: scan the bound slots left to right, copy
  a concrete slot, fill a placeholder slot with the next unconsumed runtime argument (or
  with "no value" when none is left), and append the runtime arguments that remain.
\<close>

fun substitute :: "jsval list \<Rightarrow> jsval list \<Rightarrow> jsval list" where
  "substitute [] runtimeArgs = runtimeArgs"
| "substitute (slot # slots) runtimeArgs =
     (if slot = placeholder then
        (case runtimeArgs of
           [] \<Rightarrow> Undefined # substitute slots []
         | a # rest \<Rightarrow> a # substitute slots rest)
      else slot # substitute slots runtimeArgs)"

text \<open>
  Where the \<open>j\<close>-th runtime argument lands in the final vector. The position depends on
  the bound slots only: the \<open>j\<close>-th placeholder slot, or past the slots once the
  placeholders are used up.
\<close>

fun arg_position :: "jsval list \<Rightarrow> nat \<Rightarrow> nat" where
  "arg_position [] j = j"
| "arg_position (slot # slots) j =
     (if slot = placeholder then
        (case j of 0 \<Rightarrow> 0 | Suc j' \<Rightarrow> Suc (arg_position slots j'))
      else Suc (arg_position slots j))"

subsection \<open>The loops compute the substitution\<close>

lemma js_assign_end: "js_assign xs (length xs) v = xs @ [v]"
  by (simp add: js_assign_def)

lemma rest_loop_appends:
  "length newArgs = i \<Longrightarrow> rest_loop arguments i lastIdx newArgs = newArgs @ drop lastIdx arguments"
proof (induction arguments i lastIdx newArgs rule: rest_loop.induct)
  case (1 arguments i lastIdx newArgs)
  show ?case
  proof (cases "lastIdx < length arguments")
    case True
    have "rest_loop arguments i lastIdx newArgs =
          rest_loop arguments (i + 1) (lastIdx + 1) (newArgs @ [arguments ! lastIdx])"
      using True "1.prems" by (subst rest_loop.simps) (simp add: js_assign_def js_index_def)
    also have "\<dots> = (newArgs @ [arguments ! lastIdx]) @ drop (lastIdx + 1) arguments"
      using True "1.prems" "1.IH" by (simp add: js_assign_def js_index_def)
    also have "\<dots> = newArgs @ drop lastIdx arguments"
      using True by (simp add: Cons_nth_drop_Suc)
    finally show ?thesis .
  next
    case False
    then show ?thesis by (subst rest_loop.simps) simp
  qed
qed

lemma substitute_no_args:
  "substitute slots [] = map (\<lambda>s. if s = placeholder then Undefined else s) slots"
  by (induction slots) auto

lemma loops_substitute:
  "i \<le> length args \<Longrightarrow> length newArgs = i \<Longrightarrow>
   (case bound_loop args arguments i lastIdx newArgs of
      (i', lastIdx', newArgs') \<Rightarrow> rest_loop arguments i' lastIdx' newArgs')
   = newArgs @ substitute (drop i args) (drop lastIdx arguments)"
proof (induction args arguments i lastIdx newArgs rule: bound_loop.induct)
  case (1 args arguments i lastIdx newArgs)
  show ?case
  proof (cases "i < length args")
    case False
    with "1.prems" have "i = length args" by simp
    with "1.prems" show ?thesis
      by (subst bound_loop.simps) (simp add: rest_loop_appends)
  next
    case True
    note lt = True
    have dr: "drop i args = args ! i # drop (Suc i) args"
      using lt by (simp add: Cons_nth_drop_Suc)
    show ?thesis
    proof (cases "args ! i = placeholder")
      case True
      have step: "bound_loop args arguments i lastIdx newArgs =
            bound_loop args arguments (i + 1) (lastIdx + 1)
              (newArgs @ [js_index arguments lastIdx])"
        using lt True "1.prems"
        by (subst bound_loop.simps) (simp add: js_index_def js_assign_def)
      have ih: "(case bound_loop args arguments (i + 1) (lastIdx + 1)
                   (newArgs @ [js_index arguments lastIdx]) of
                 (i', lastIdx', newArgs') \<Rightarrow> rest_loop arguments i' lastIdx' newArgs')
            = (newArgs @ [js_index arguments lastIdx])
                @ substitute (drop (i + 1) args) (drop (lastIdx + 1) arguments)"
        using "1.IH"(1) [OF lt refl] True lt "1.prems"
        by (simp add: js_index_def js_assign_def)
      show ?thesis
      proof (cases "lastIdx < length arguments")
        case True
        then have "drop lastIdx arguments = arguments ! lastIdx # drop (Suc lastIdx) arguments"
          by (simp add: Cons_nth_drop_Suc)
        with \<open>args ! i = placeholder\<close> True show ?thesis
          unfolding step ih dr by (simp add: js_index_def)
      next
        case False
        with \<open>args ! i = placeholder\<close> show ?thesis
          unfolding step ih dr by (simp add: js_index_def)
      qed
    next
      case False
      have step: "bound_loop args arguments i lastIdx newArgs =
            bound_loop args arguments (i + 1) lastIdx (newArgs @ [args ! i])"
        using lt False "1.prems"
        by (subst bound_loop.simps) (simp add: js_index_def js_assign_def)
      have ih: "(case bound_loop args arguments (i + 1) lastIdx (newArgs @ [args ! i]) of
                 (i', lastIdx', newArgs') \<Rightarrow> rest_loop arguments i' lastIdx' newArgs')
            = (newArgs @ [args ! i]) @ substitute (drop (i + 1) args) (drop lastIdx arguments)"
        using "1.IH"(2) [OF lt refl] False lt "1.prems"
        by (simp add: js_index_def js_assign_def)
      from False show ?thesis
        unfolding step ih dr by simp
    qed
  qed
qed

lemma partial_newArgs_substitute: "partial_newArgs slots runtimeArgs = substitute slots runtimeArgs"
  using loops_substitute [of 0 slots "[]" runtimeArgs 0]
  by (simp add: partial_newArgs_def)

lemma length_substitute:
  "length (substitute slots runtimeArgs)
   = length slots + (length runtimeArgs - count_list slots placeholder)"
  by (induction slots arbitrary: runtimeArgs) (auto split: list.splits)

lemma substitute_nth:
  "i < length slots \<Longrightarrow>
   substitute slots runtimeArgs ! i =
     (if slots ! i = placeholder
      then js_index runtimeArgs (count_list (take i slots) placeholder)
      else slots ! i)"
proof (induction slots arbitrary: i runtimeArgs)
  case Nil
  then show ?case by simp
next
  case (Cons slot slots)
  show ?case
  proof (cases i)
    case 0
    then show ?thesis by (simp add: js_index_def split: list.splits)
  next
    case (Suc k)
    with Cons.prems have k: "k < length slots" by simp
    show ?thesis
      using Suc Cons.IH [OF k] by (auto simp: js_index_def split: list.splits)
  qed
qed

lemma arg_position_bound:
  "j < length runtimeArgs \<Longrightarrow> arg_position slots j < length (substitute slots runtimeArgs)"
  by (induction slots arbitrary: j runtimeArgs) (auto split: list.splits nat.splits)

lemma substitute_arg_position:
  "j < length runtimeArgs \<Longrightarrow> substitute slots runtimeArgs ! arg_position slots j = runtimeArgs ! j"
  by (induction slots arbitrary: j runtimeArgs) (auto split: list.splits nat.splits)

lemma substitute_update:
  "j < length runtimeArgs \<Longrightarrow>
   substitute slots (runtimeArgs[j := v]) = (substitute slots runtimeArgs)[arg_position slots j := v]"
  by (induction slots arbitrary: j runtimeArgs) (auto split: list.splits nat.splits)

lemma substitute_no_placeholder:
  "placeholder \<notin> set slots \<Longrightarrow> substitute slots runtimeArgs = slots @ runtimeArgs"
  by (induction slots) auto

lemma substitute_set:
  "x \<in> set (substitute slots runtimeArgs) \<Longrightarrow>
   x \<in> set slots \<and> x \<noteq> placeholder \<or> x \<in> set runtimeArgs \<or> x = Undefined"
proof (induction slots arbitrary: runtimeArgs)
  case Nil
  then show ?case by simp
next
  case (Cons slot slots)
  show ?case
  proof (cases "slot = placeholder")
    case False
    with Cons.prems have "x = slot \<or> x \<in> set (substitute slots runtimeArgs)"
      by simp
    with False Cons.IH [of runtimeArgs] show ?thesis by auto
  next
    case True
    show ?thesis
    proof (cases runtimeArgs)
      case Nil
      with True Cons.prems have "x = Undefined \<or> x \<in> set (substitute slots [])"
        by simp
      with Cons.IH [of "[]"] show ?thesis by auto
    next
      case (Cons a rest)
      with True Cons.prems have "x = a \<or> x \<in> set (substitute slots rest)"
        by simp
      with Cons Cons.IH [of rest] show ?thesis by auto
    qed
  qed
qed

lemma placeholder_not_Undefined: "placeholder \<noteq> Undefined"
  by (simp add: placeholder_def lamb_def)

lemma substitute_placeholder_origin:
  "i < length (substitute slots runtimeArgs) \<Longrightarrow> substitute slots runtimeArgs ! i = placeholder \<Longrightarrow>
   \<exists>j < length runtimeArgs. runtimeArgs ! j = placeholder \<and> arg_position slots j = i"
proof (induction slots arbitrary: i runtimeArgs)
  case Nil
  then show ?case by auto
next
  case (Cons slot slots)
  show ?case
  proof (cases "slot = placeholder")
    case False
    with Cons.prems obtain k where k: "i = Suc k"
      by (cases i) auto
    with Cons.prems False have "k < length (substitute slots runtimeArgs)"
      "substitute slots runtimeArgs ! k = placeholder"
      by auto
    from Cons.IH [OF this] obtain j where
      "j < length runtimeArgs" "runtimeArgs ! j = placeholder" "arg_position slots j = k"
      by blast
    with False k show ?thesis by auto
  next
    case True
    note ph = True
    show ?thesis
    proof (cases runtimeArgs)
      case Nil
      with ph Cons.prems placeholder_not_Undefined obtain k where k: "i = Suc k"
        by (cases i) auto
      with Cons.prems ph Nil have "k < length (substitute slots [])"
        "substitute slots [] ! k = placeholder"
        by auto
      from Cons.IH [OF this] show ?thesis by simp
    next
      case (Cons a rest)
      show ?thesis
      proof (cases i)
        case 0
        with Cons.prems ph Cons have "a = placeholder" by simp
        with 0 ph Cons show ?thesis by (intro exI [of _ 0]) simp
      next
        case (Suc k)
        with Cons.prems ph Cons have "k < length (substitute slots rest)"
          "substitute slots rest ! k = placeholder"
          by auto
        from Cons.IH [OF this] obtain j where
          "j < length rest" "rest ! j = placeholder" "arg_position slots j = k"
          by blast
        with Suc ph Cons show ?thesis by (intro exI [of _ "Suc j"]) simp
      qed
    qed
  qed
qed

subsection \<open>Claims about \<open>partial\<close>\<close>

text \<open>
  C1. The function returned by \<open>partial(fn, ...slots)\<close> invokes \<open>fn\<close> with the vector built
  by scanning the bound slots left to right, copying each concrete slot, replacing each
  placeholder slot with the next unconsumed runtime argument and appending the runtime
  arguments that remain. In particular, for concrete slots \<open>a\<close> and \<open>b\<close>,
  \<open>partial(fn, a, _)(b) = fn(a, b)\<close> and \<open>partial(fn, _, b)(a, c) = fn(a, b, c)\<close>.
\<close>

theorem partial_applies_substitution:
  "partial fn slots this runtimeArgs = fn this (substitute slots runtimeArgs)
   \<and> (a \<noteq> placeholder \<longrightarrow> partial fn [a, placeholder] this [b] = fn this [a, b])
   \<and> (b \<noteq> placeholder \<longrightarrow> partial fn [placeholder, b] this [a, c] = fn this [a, b, c])"
  by (simp add: partial_def partial_newArgs_substitute)

theorem partial_applies_substitution_witness:
  "partial (\<lambda>this xs. xs) [Num 1, placeholder, Str ''x'', placeholder] Null [Num 2, Num 3, Num 4]
     = [Num 1, Num 2, Str ''x'', Num 3, Num 4]
   \<and> partial (\<lambda>this xs. xs) [Num 1, placeholder] Null [Num 2] = [Num 1, Num 2]
   \<and> partial (\<lambda>this xs. xs) [placeholder, Num 2] Null [Num 1, Num 3] = [Num 1, Num 2, Num 3]"
  using partial_applies_substitution
    [where fn = "\<lambda>this xs. xs" and this = Null and a = "Num 1" and b = "Num 2" and c = "Num 3"
       and slots = "[Num 1, placeholder, Str ''x'', placeholder]"
       and runtimeArgs = "[Num 2, Num 3, Num 4]"]
  by (simp add: placeholder_def lamb_def)

text \<open>
  C2. When a call supplies fewer runtime arguments than there are placeholder slots, the
  call does not raise: \<open>fn\<close> is invoked with a vector as long as the bound slots, in which
  every concrete slot is copied, the placeholder slots that still find a runtime argument
  hold it, and every placeholder slot left without one holds \<open>undefined\<close> (there is at
  least one such slot).
\<close>

theorem partial_missing_arguments_undefined:
  assumes "length runtimeArgs < count_list slots placeholder"
  shows "partial fn slots this runtimeArgs = fn this (partial_newArgs slots runtimeArgs)
    \<and> length (partial_newArgs slots runtimeArgs) = length slots
    \<and> (\<forall>i < length slots.
          (slots ! i \<noteq> placeholder \<longrightarrow> partial_newArgs slots runtimeArgs ! i = slots ! i)
        \<and> (slots ! i = placeholder \<and> count_list (take i slots) placeholder < length runtimeArgs
             \<longrightarrow> partial_newArgs slots runtimeArgs ! i
                   = runtimeArgs ! count_list (take i slots) placeholder)
        \<and> (slots ! i = placeholder \<and> length runtimeArgs \<le> count_list (take i slots) placeholder
             \<longrightarrow> partial_newArgs slots runtimeArgs ! i = Undefined))
    \<and> (\<exists>i < length slots. slots ! i = placeholder
          \<and> partial_newArgs slots runtimeArgs ! i = Undefined)"
proof -
  let ?v = "partial_newArgs slots runtimeArgs"
  have call: "partial fn slots this runtimeArgs = fn this ?v"
    by (simp add: partial_def)
  have len: "length ?v = length slots"
    using assms by (simp add: partial_newArgs_substitute length_substitute)
  have pointwise: "\<forall>i < length slots.
          (slots ! i \<noteq> placeholder \<longrightarrow> ?v ! i = slots ! i)
        \<and> (slots ! i = placeholder \<and> count_list (take i slots) placeholder < length runtimeArgs
             \<longrightarrow> ?v ! i = runtimeArgs ! count_list (take i slots) placeholder)
        \<and> (slots ! i = placeholder \<and> length runtimeArgs \<le> count_list (take i slots) placeholder
             \<longrightarrow> ?v ! i = Undefined)"
    by (simp add: partial_newArgs_substitute substitute_nth js_index_def)
  have "\<exists>i < length slots. slots ! i = placeholder
          \<and> length runtimeArgs \<le> count_list (take i slots) placeholder"
    using assms
  proof (induction slots rule: rev_induct)
    case Nil
    then show ?case by simp
  next
    case (snoc slot slots)
    show ?case
    proof (cases "length runtimeArgs < count_list slots placeholder")
      case True
      from snoc.IH [OF True] obtain i where
        "i < length slots" "slots ! i = placeholder"
        "length runtimeArgs \<le> count_list (take i slots) placeholder"
        by blast
      then show ?thesis
        by (intro exI [of _ i]) (simp add: nth_append)
    next
      case False
      with snoc.prems have "slot = placeholder" "length runtimeArgs \<le> count_list slots placeholder"
        by (auto split: if_splits)
      then show ?thesis
        by (intro exI [of _ "length slots"]) simp
    qed
  qed
  with pointwise have "\<exists>i < length slots. slots ! i = placeholder \<and> ?v ! i = Undefined"
    by blast
  with call len pointwise show ?thesis by blast
qed

theorem partial_missing_arguments_undefined_witness:
  "length [Num 7] < count_list [placeholder, Str ''k'', placeholder] placeholder
   \<and> partial (\<lambda>this xs. xs) [placeholder, Str ''k'', placeholder] Null [Num 7]
       = [Num 7, Str ''k'', Undefined]
   \<and> partial_newArgs [placeholder, Str ''k'', placeholder] [Num 7] ! 2 = Undefined"
proof -
  have h: "length [Num 7] < count_list [placeholder, Str ''k'', placeholder] placeholder"
    by (simp add: placeholder_def lamb_def)
  have v: "partial_newArgs [placeholder, Str ''k'', placeholder] [Num 7]
           = [Num 7, Str ''k'', Undefined]"
    by (simp add: partial_newArgs_substitute) (simp add: placeholder_def lamb_def)
  from partial_missing_arguments_undefined [OF h, of "\<lambda>this xs. xs" Null]
  have "partial (\<lambda>this xs. xs) [placeholder, Str ''k'', placeholder] Null [Num 7]
        = partial_newArgs [placeholder, Str ''k'', placeholder] [Num 7]"
    by blast
  with h v show ?thesis by simp
qed

text \<open>
  C3. A placeholder among the runtime arguments is never a substitution point: every
  runtime argument, the placeholder included, is handed to \<open>fn\<close> as it is, at a position
  that the builder's slots alone decide; putting a placeholder in the place of a runtime
  argument changes the final vector at that one position only, and its length not at
  all. With no placeholder among the bound slots the final vector is the bound slots
  followed by the runtime arguments.
\<close>

theorem partial_runtime_placeholder_literal:
  "partial fn slots this runtimeArgs = fn this (partial_newArgs slots runtimeArgs)
   \<and> length (partial_newArgs slots runtimeArgs)
       = length slots + (length runtimeArgs - count_list slots placeholder)
   \<and> (\<forall>j < length runtimeArgs.
          arg_position slots j < length (partial_newArgs slots runtimeArgs)
        \<and> partial_newArgs slots runtimeArgs ! arg_position slots j = runtimeArgs ! j
        \<and> partial_newArgs slots (runtimeArgs[j := placeholder])
            = (partial_newArgs slots runtimeArgs)[arg_position slots j := placeholder])
   \<and> (placeholder \<notin> set slots \<longrightarrow> partial_newArgs slots runtimeArgs = slots @ runtimeArgs)"
proof -
  have "\<forall>j < length runtimeArgs.
          arg_position slots j < length (substitute slots runtimeArgs)
        \<and> substitute slots runtimeArgs ! arg_position slots j = runtimeArgs ! j
        \<and> substitute slots (runtimeArgs[j := placeholder])
            = (substitute slots runtimeArgs)[arg_position slots j := placeholder]"
    using arg_position_bound substitute_arg_position substitute_update by blast
  then show ?thesis
    unfolding partial_def partial_newArgs_substitute
    using length_substitute [of slots runtimeArgs] substitute_no_placeholder [of slots runtimeArgs]
    by blast
qed

theorem partial_runtime_placeholder_literal_witness:
  "partial (\<lambda>this xs. xs) [Num 1, Num 2] Null [placeholder, Num 3] = [Num 1, Num 2, placeholder, Num 3]
   \<and> placeholder \<notin> set [Num 1, Num 2]
   \<and> partial_newArgs [placeholder, Num 2] [placeholder, Num 3] ! arg_position [placeholder, Num 2] 0
       = placeholder"
proof -
  have h: "placeholder \<notin> set [Num 1, Num 2]"
    by (simp add: placeholder_def lamb_def)
  have j: "(0::nat) < length [placeholder, Num 3]"
    by simp
  from partial_runtime_placeholder_literal
         [of "\<lambda>this xs. xs" "[Num 1, Num 2]" Null "[placeholder, Num 3]"] h
  have a: "partial (\<lambda>this xs. xs) [Num 1, Num 2] Null [placeholder, Num 3]
           = [Num 1, Num 2, placeholder, Num 3]"
    by simp
  from partial_runtime_placeholder_literal
         [of "\<lambda>this xs. xs" "[placeholder, Num 2]" Null "[placeholder, Num 3]"]
  have "\<forall>j < length [placeholder, Num 3].
          partial_newArgs [placeholder, Num 2] [placeholder, Num 3] ! arg_position [placeholder, Num 2] j
          = [placeholder, Num 3] ! j"
    by blast
  with j have b: "partial_newArgs [placeholder, Num 2] [placeholder, Num 3]
             ! arg_position [placeholder, Num 2] 0 = placeholder"
    by fastforce
  from a h b show ?thesis by simp
qed

text \<open>
  C4, as the specification states it: no position of the final argument vector handed to
  the wrapped function holds the placeholder. The code does not check the runtime
  arguments: a placeholder passed at call time reaches \<open>fn\<close>.
\<close>

theorem partial_passes_runtime_placeholder:
  "placeholder \<in> set (partial_newArgs [Num 1] [placeholder])
   \<and> partial (\<lambda>this xs. xs) [Num 1] Null [placeholder] = [Num 1, placeholder]"
  by (simp add: partial_def partial_newArgs_substitute) (simp add: placeholder_def lamb_def)

text \<open>
  C4, amended. No placeholder of the builder's own slots is passed on. In every call, a
  position of the final vector holds the placeholder only where a runtime argument that
  is the placeholder itself landed (the position that the slots give that argument);
  every placeholder slot holds the runtime argument it consumed, or \<open>undefined\<close>; so
  when no runtime argument is the placeholder, no position of the final vector holds it.
\<close>

theorem partial_bound_placeholder_never_passed:
  "(\<forall>i < length (partial_newArgs slots runtimeArgs).
       partial_newArgs slots runtimeArgs ! i = placeholder \<longrightarrow>
         (\<exists>j < length runtimeArgs. runtimeArgs ! j = placeholder \<and> arg_position slots j = i))
   \<and> (\<forall>i < length slots. slots ! i = placeholder \<longrightarrow>
         partial_newArgs slots runtimeArgs ! i
           = js_index runtimeArgs (count_list (take i slots) placeholder))
   \<and> (placeholder \<notin> set runtimeArgs \<longrightarrow> placeholder \<notin> set (partial_newArgs slots runtimeArgs))"
proof -
  have origin: "\<forall>i < length (partial_newArgs slots runtimeArgs).
       partial_newArgs slots runtimeArgs ! i = placeholder \<longrightarrow>
         (\<exists>j < length runtimeArgs. runtimeArgs ! j = placeholder \<and> arg_position slots j = i)"
    using substitute_placeholder_origin [of _ slots runtimeArgs]
    by (simp add: partial_newArgs_substitute)
  have filled: "\<forall>i < length slots. slots ! i = placeholder \<longrightarrow>
         partial_newArgs slots runtimeArgs ! i
           = js_index runtimeArgs (count_list (take i slots) placeholder)"
    by (simp add: partial_newArgs_substitute substitute_nth)
  have none: "placeholder \<notin> set runtimeArgs \<longrightarrow> placeholder \<notin> set (partial_newArgs slots runtimeArgs)"
  proof
    assume no: "placeholder \<notin> set runtimeArgs"
    show "placeholder \<notin> set (partial_newArgs slots runtimeArgs)"
    proof
      assume "placeholder \<in> set (partial_newArgs slots runtimeArgs)"
      then obtain i where "i < length (partial_newArgs slots runtimeArgs)"
        "partial_newArgs slots runtimeArgs ! i = placeholder"
        by (auto simp: in_set_conv_nth)
      with origin obtain j where "j < length runtimeArgs" "runtimeArgs ! j = placeholder"
        by blast
      with no show False by (metis nth_mem)
    qed
  qed
  from origin filled none show ?thesis by blast
qed

theorem partial_bound_placeholder_never_passed_witness:
  "partial_newArgs [placeholder, Num 2] [Num 7, placeholder] = [Num 7, Num 2, placeholder]
   \<and> [Num 7, placeholder] ! 1 = placeholder
   \<and> arg_position [placeholder, Num 2] 1 = 2
   \<and> placeholder \<notin> set [Num 5]
   \<and> placeholder \<notin> set (partial_newArgs [placeholder, Num 2, placeholder] [Num 5])"
proof -
  have h: "placeholder \<notin> set [Num 5]"
    by (simp add: placeholder_def lamb_def)
  from partial_bound_placeholder_never_passed [of "[placeholder, Num 2, placeholder]" "[Num 5]"] h
  have "placeholder \<notin> set (partial_newArgs [placeholder, Num 2, placeholder] [Num 5])"
    by blast
  moreover have "partial_newArgs [placeholder, Num 2] [Num 7, placeholder] = [Num 7, Num 2, placeholder]"
    by (simp add: partial_newArgs_substitute) (simp add: placeholder_def lamb_def)
  moreover have "arg_position [placeholder, Num 2] 1 = 2"
    by (simp add: placeholder_def lamb_def)
  ultimately show ?thesis using h by simp
qed

section \<open>Splitting a list (\<open>partition\<close>)\<close>

text \<open>
  The truth value JavaScript gives a value in a condition (\<open>ToBoolean\<close>): \<open>undefined\<close>,
  \<open>null\<close>, \<open>false\<close>, \<open>0\<close> and the empty string are falsy, everything else is truthy.
\<close>

fun truthy :: "jsval \<Rightarrow> bool" where
  "truthy Undefined = False"
| "truthy Null = False"
| "truthy (Bool b) = b"
| "truthy (Num n) = (n \<noteq> 0)"
| "truthy (Str s) = (s \<noteq> [])"
| "truthy (Obj a) = True"

text \<open>
  The loop of \<open>partition\<close>:
  \<^verbatim>\<open>for (var i = 0, el; i < len; i++) {
      el = arrayLike[i];
      result[predicate.call(predicateContext, el, i, arrayLike) ? 0 : 1].push(el);
  }\<close>
  An array-like is the list of its elements; \<open>result\<close> is the pair of the two lists. The
  predicate is called with the context as receiver, the element, its index and the whole
  array-like.
\<close>

function partition_loop ::
  "jsval list \<Rightarrow> (jsval \<Rightarrow> jsval \<Rightarrow> nat \<Rightarrow> jsval list \<Rightarrow> jsval) \<Rightarrow> jsval \<Rightarrow> nat
   \<Rightarrow> jsval list \<times> jsval list \<Rightarrow> jsval list \<times> jsval list" where
  "partition_loop arrayLike predicate predicateContext i result =
     (if i < length arrayLike then
        (let el = js_index arrayLike i in
         partition_loop arrayLike predicate predicateContext (i + 1)
           (if truthy (predicate predicateContext el i arrayLike)
            then (fst result @ [el], snd result)
            else (fst result, snd result @ [el])))
      else result)"
  by pat_completeness auto
termination
  by (relation "measure (\<lambda>(arrayLike, predicate, predicateContext, i, result). length arrayLike - i)")
     auto

declare partition_loop.simps [simp del]

definition partition ::
  "jsval list \<Rightarrow> (jsval \<Rightarrow> jsval \<Rightarrow> nat \<Rightarrow> jsval list \<Rightarrow> jsval) \<Rightarrow> jsval
   \<Rightarrow> jsval list \<times> jsval list" where
  "partition arrayLike predicate predicateContext =
     partition_loop arrayLike predicate predicateContext 0 ([], [])"

text \<open>The elements paired with their indices, as the predicate sees them.\<close>

definition indexed :: "jsval list \<Rightarrow> (jsval \<times> nat) list" where
  "indexed xs = zip xs [0..<length xs]"

lemma partition_loop_filter:
  "i \<le> length xs \<Longrightarrow>
   partition_loop xs p ctx i result =
     (fst result @ map fst (filter (\<lambda>(el, k). truthy (p ctx el k xs)) (drop i (indexed xs))),
      snd result @ map fst (filter (\<lambda>(el, k). \<not> truthy (p ctx el k xs)) (drop i (indexed xs))))"
proof (induction xs p ctx i result rule: partition_loop.induct)
  case (1 xs p ctx i result)
  show ?case
  proof (cases "i < length xs")
    case False
    with "1.prems" show ?thesis
      by (subst partition_loop.simps) (simp add: indexed_def)
  next
    case True
    then have dr: "drop i (indexed xs) = (xs ! i, i) # drop (Suc i) (indexed xs)"
      by (simp add: indexed_def Cons_nth_drop_Suc [symmetric])
    show ?thesis
    proof (cases "truthy (p ctx (xs ! i) i xs)")
      case yes: True
      have "partition_loop xs p ctx i result =
            partition_loop xs p ctx (i + 1) (fst result @ [xs ! i], snd result)"
        using True yes by (subst partition_loop.simps) (simp add: js_index_def)
      also have "\<dots> =
            ((fst result @ [xs ! i])
               @ map fst (filter (\<lambda>(el, k). truthy (p ctx el k xs)) (drop (i + 1) (indexed xs))),
             snd result
               @ map fst (filter (\<lambda>(el, k). \<not> truthy (p ctx el k xs)) (drop (i + 1) (indexed xs))))"
        using "1.IH" [OF True refl] True yes by (simp add: js_index_def)
      finally show ?thesis
        using yes by (simp add: dr)
    next
      case no: False
      have "partition_loop xs p ctx i result =
            partition_loop xs p ctx (i + 1) (fst result, snd result @ [xs ! i])"
        using True no by (subst partition_loop.simps) (simp add: js_index_def)
      also have "\<dots> =
            (fst result
               @ map fst (filter (\<lambda>(el, k). truthy (p ctx el k xs)) (drop (i + 1) (indexed xs))),
             (snd result @ [xs ! i])
               @ map fst (filter (\<lambda>(el, k). \<not> truthy (p ctx el k xs)) (drop (i + 1) (indexed xs))))"
        using "1.IH" [OF True refl] True no by (simp add: js_index_def)
      finally show ?thesis
        using no by (simp add: dr)
    qed
  qed
qed

lemma length_indexed: "length (indexed xs) = length xs"
  by (simp add: indexed_def)

text \<open>
  C9. \<open>partition\<close> returns the pair of the elements for which the predicate (given the
  element, its index and the list) is truthy and of the remaining elements, both in input
  order; the two lengths sum to the length of the input.
\<close>

theorem partition_splits_in_order:
  "partition xs p ctx =
     (map fst (filter (\<lambda>(el, k). truthy (p ctx el k xs)) (indexed xs)),
      map fst (filter (\<lambda>(el, k). \<not> truthy (p ctx el k xs)) (indexed xs)))
   \<and> length (fst (partition xs p ctx)) + length (snd (partition xs p ctx)) = length xs"
proof -
  have eq: "partition xs p ctx =
     (map fst (filter (\<lambda>(el, k). truthy (p ctx el k xs)) (indexed xs)),
      map fst (filter (\<lambda>(el, k). \<not> truthy (p ctx el k xs)) (indexed xs)))"
    using partition_loop_filter [of 0 xs p ctx "([], [])"] by (simp add: partition_def)
  have "length (filter (\<lambda>(el, k). truthy (p ctx el k xs)) (indexed xs))
        + length (filter (\<lambda>(el, k). \<not> truthy (p ctx el k xs)) (indexed xs))
        = length (indexed xs)"
    using sum_length_filter_compl [of "\<lambda>(el, k). truthy (p ctx el k xs)" "indexed xs"]
    by (simp add: split_def)
  with eq show ?thesis by (simp add: length_indexed)
qed

theorem partition_splits_in_order_witness:
  "partition [Num 1, Num 2, Num 3, Num 4, Num 5]
     (\<lambda>this el i arr. case el of Num n \<Rightarrow> Bool (n mod 2 = 0) | _ \<Rightarrow> Undefined) Undefined
   = ([Num 2, Num 4], [Num 1, Num 3, Num 5])"
  using partition_splits_in_order
    [of "[Num 1, Num 2, Num 3, Num 4, Num 5]"
        "\<lambda>this el i arr. case el of Num n \<Rightarrow> Bool (n mod 2 = 0) | _ \<Rightarrow> Undefined" Undefined]
  by (simp add: indexed_def upt_rec)

section \<open>Currying (\<open>curry\<close>)\<close>







section \<open>Objects and the store\<close>

text \<open>
  An object is a record in the store: its own properties (data properties, each with its
  value and its three attributes) in the order in which JavaScript lists the keys of the
  object (integer-like keys ascending, then the other keys in creation order), its
  prototype, whether it is extensible, and whether it can be called (a function is an
  object for which \<open>typeof\<close> answers \<open>"function"\<close>). An array is an object whose keys are
  its indices and \<open>length\<close>. The objects of the store are ordinary objects: plain objects,
  arrays and functions. Accessor properties (getters), symbol keys, proxies and typed
  arrays are outside the model.
\<close>

record property =
  prop_value :: jsval
  prop_enumerable :: bool
  prop_writable :: bool
  prop_configurable :: bool

record object =
  obj_props :: "(string \<times> property) list"
  obj_proto :: jsval
  obj_extensible :: bool
  obj_callable :: bool

text \<open>
  The store is the list of the objects allocated so far; an address is an index into it.
  A program only holds addresses of allocated objects; the definitions below are total all
  the same, and treat an address outside the store as an object without properties.
\<close>

type_synonym heap = "object list"

definition allocated :: "heap \<Rightarrow> jsval \<Rightarrow> bool" where
  "allocated h v = (case v of Obj a \<Rightarrow> a < length h | _ \<Rightarrow> False)"

text \<open>The \<open>typeof\<close> operator.\<close>

fun typeof :: "heap \<Rightarrow> jsval \<Rightarrow> string" where
  "typeof h Undefined = ''undefined''"
| "typeof h Null = ''object''"
| "typeof h (Bool b) = ''boolean''"
| "typeof h (Num n) = ''number''"
| "typeof h (Str s) = ''string''"
| "typeof h (Obj a) = (if a < length h \<and> obj_callable (h ! a) then ''function'' else ''object'')"

text \<open>
  Modelled from the spec: the helper \<open>isNull\<close> is defined outside the files at hand; it
  tells \<open>null\<close> from every other value (the traversal skips "scalar/primitive values",
  and \<open>null\<close> is the one primitive for which \<open>typeof\<close> answers \<open>"object"\<close>).
\<close>

definition isNull :: "jsval \<Rightarrow> bool" where
  "isNull v = (v = Null)"

text \<open>
  \<open>Object.freeze(obj)\<close>: an object becomes non-extensible and each of its own properties
  non-writable and non-configurable; the values, the keys and the prototype stay. A value
  that is not an object is returned as it is (ECMAScript 2015; an ES5 engine raises a
  \<open>TypeError\<close> there instead). The call returns \<open>obj\<close> itself; the model returns the store.
  On an ordinary object, which is all that the store holds, \<open>Object.freeze\<close> cannot fail;
  it raises a \<open>TypeError\<close> for a typed array that has elements, which no store of the
  model contains.
\<close>

definition freeze_property :: "property \<Rightarrow> property" where
  "freeze_property p = p\<lparr>prop_writable := False, prop_configurable := False\<rparr>"

definition freeze_object :: "object \<Rightarrow> object" where
  "freeze_object ob =
     ob\<lparr>obj_props := map (\<lambda>(k, p). (k, freeze_property p)) (obj_props ob),
        obj_extensible := False\<rparr>"

fun Object_freeze :: "heap \<Rightarrow> jsval \<Rightarrow> heap" where
  "Object_freeze h (Obj a) = (if a < length h then h[a := freeze_object (h ! a)] else h)"
| "Object_freeze h v = h"

text \<open>\<open>Object.isFrozen\<close>.\<close>

definition is_frozen :: "object \<Rightarrow> bool" where
  "is_frozen ob =
     (\<not> obj_extensible ob
      \<and> list_all (\<lambda>(k, p). \<not> prop_writable p \<and> \<not> prop_configurable p) (obj_props ob))"

fun Object_isFrozen :: "heap \<Rightarrow> jsval \<Rightarrow> bool" where
  "Object_isFrozen h (Obj a) = (a < length h \<and> is_frozen (h ! a))"
| "Object_isFrozen h v = True"

text \<open>
  A string primitive has its characters under the index keys and its \<open>length\<close> as own
  properties; all of them are primitive values. \<open>show_nat\<close> writes an index in decimal.
\<close>

function show_nat :: "nat \<Rightarrow> string" where
  "show_nat n =
     (if n < 10 then [char_of (48 + n)]
      else show_nat (n div 10) @ [char_of (48 + n mod 10)])"
  by pat_completeness auto
termination
  by (relation "measure id") auto

declare show_nat.simps [simp del]

definition string_props :: "string \<Rightarrow> (string \<times> jsval) list" where
  "string_props s =
     zip (map show_nat [0..<length s]) (map (\<lambda>c. Str [c]) s) @ [(''length'', Num (int (length s)))]"

text \<open>
  \<open>Object.getOwnPropertyNames(obj)\<close>: the names of all own properties, enumerable or not,
  and of no inherited one. It raises a \<open>TypeError\<close> for \<open>undefined\<close> and \<open>null\<close>.
\<close>

fun getOwnPropertyNames :: "heap \<Rightarrow> jsval \<Rightarrow> error + string list" where
  "getOwnPropertyNames h Undefined = Inl TypeError"
| "getOwnPropertyNames h Null = Inl TypeError"
| "getOwnPropertyNames h (Obj a) = Inr (if a < length h then map fst (obj_props (h ! a)) else [])"
| "getOwnPropertyNames h (Str s) = Inr (map fst (string_props s))"
| "getOwnPropertyNames h v = Inr []"

text \<open>
  \<open>obj[key]\<close>. The traversal only reads keys that \<open>Object.getOwnPropertyNames\<close> returned for
  the same object, so the lookup always ends at the own property; for a key that is not an
  own property (where JavaScript would go on to the prototype chain) the model answers
  \<open>undefined\<close>.
\<close>

fun get_property :: "heap \<Rightarrow> jsval \<Rightarrow> string \<Rightarrow> error + jsval" where
  "get_property h Undefined key = Inl TypeError"
| "get_property h Null key = Inl TypeError"
| "get_property h (Obj a) key =
     Inr (if a < length h
          then (case map_of (obj_props (h ! a)) key of Some p \<Rightarrow> prop_value p | None \<Rightarrow> Undefined)
          else Undefined)"
| "get_property h (Str s) key =
     Inr (case map_of (string_props s) key of Some v \<Rightarrow> v | None \<Rightarrow> Undefined)"
| "get_property h v key = Inr Undefined"

text \<open>\<open>seen.indexOf(obj)\<close>: the first index holding a value identical to \<open>obj\<close>, or \<open>-1\<close>.\<close>

fun indexOf :: "jsval list \<Rightarrow> jsval \<Rightarrow> int" where
  "indexOf [] v = - 1"
| "indexOf (x # xs) v =
     (if x = v then 0 else (let i = indexOf xs v in if i = - 1 then - 1 else i + 1))"

section \<open>Deep freezing (\<open>immutable\<close>)\<close>

text \<open>
  \<open>immutable_rec\<close> is the source's \<open>_immutable(obj, seen)\<close>:
  \<^verbatim>\<open>if (seen.indexOf(obj) === -1) {
      seen.push(Object.freeze(obj));
      Object.getOwnPropertyNames(obj).forEach(function (key) {
          var value = obj[key];
          if (typeof value === "object" && !isNull(value)) {
              _immutable(value, seen);
          }
      });
  }
  return obj;\<close>
  The array \<open>seen\<close> is shared by all the recursive calls and the store changes under
  \<open>Object.freeze\<close>, so both are passed in and returned. \<open>forEach_key\<close> is the \<open>forEach\<close>
  with its callback, over the keys still to visit. An exception ends the whole call.
\<close>

function immutable_rec :: "heap \<Rightarrow> jsval \<Rightarrow> jsval list \<Rightarrow> error + jsval \<times> heap \<times> jsval list"
  and forEach_key :: "heap \<Rightarrow> jsval \<Rightarrow> string list \<Rightarrow> jsval list \<Rightarrow> error + heap \<times> jsval list"
where
  "immutable_rec h obj seen =
     (if indexOf seen obj = - 1 then
        (let h1 = Object_freeze h obj; seen1 = seen @ [obj] in
         case getOwnPropertyNames h1 obj of
           Inl e \<Rightarrow> Inl e
         | Inr keys \<Rightarrow>
             (case forEach_key h1 obj keys seen1 of
                Inl e \<Rightarrow> Inl e
              | Inr (h2, seen2) \<Rightarrow> Inr (obj, h2, seen2)))
      else Inr (obj, h, seen))"
| "forEach_key h obj [] seen = Inr (h, seen)"
| "forEach_key h obj (key # keys) seen =
     (case get_property h obj key of
        Inl e \<Rightarrow> Inl e
      | Inr value \<Rightarrow>
          if typeof h value = ''object'' \<and> \<not> isNull value then
            (case immutable_rec h value seen of
               Inl e \<Rightarrow> Inl e
             | Inr (r, h1, seen1) \<Rightarrow> forEach_key h1 obj keys seen1)
          else forEach_key h obj keys seen)"
  by pat_completeness auto


text \<open>
  Termination. A recursive call is made for the value of a property of an object of the
  store only, and every call that does not return at once puts its object into \<open>seen\<close>,
  where it was not before. The store is finite, and the number of its objects that are
  not in \<open>seen\<close> goes down. That \<open>seen\<close> only grows over a whole call is a property of the
  result of the function; it is proved on the domain of the function first.
\<close>

definition unseen :: "heap \<Rightarrow> jsval list \<Rightarrow> nat" where
  "unseen h seen = length (filter (\<lambda>a. Obj a \<notin> set seen) [0..<length h])"

lemma length_filter_mono:
  "(\<And>x. x \<in> set xs \<Longrightarrow> P x \<Longrightarrow> Q x) \<Longrightarrow> length (filter P xs) \<le> length (filter Q xs)"
  by (induction xs) auto

lemma length_filter_strict:
  "(\<And>x. x \<in> set xs \<Longrightarrow> P x \<Longrightarrow> Q x) \<Longrightarrow> y \<in> set xs \<Longrightarrow> Q y \<Longrightarrow> \<not> P y \<Longrightarrow>
   length (filter P xs) < length (filter Q xs)"
proof (induction xs)
  case Nil
  then show ?case by simp
next
  case (Cons x xs)
  have le: "length (filter P xs) \<le> length (filter Q xs)"
    using Cons.prems(1) by (intro length_filter_mono) auto
  show ?case
  proof (cases "y = x")
    case True
    with Cons.prems le show ?thesis by simp
  next
    case False
    with Cons.prems have "y \<in> set xs" by simp
    from Cons.IH [OF _ this Cons.prems(3,4)] Cons.prems(1)
    have "length (filter P xs) < length (filter Q xs)" by simp
    with Cons.prems(1) [of x] show ?thesis by auto
  qed
qed

lemma unseen_mono:
  "length h' = length h \<Longrightarrow> set seen \<subseteq> set seen' \<Longrightarrow> unseen h' seen' \<le> unseen h seen"
  unfolding unseen_def by (auto intro!: length_filter_mono)

lemma unseen_push:
  assumes "a < length h" "Obj a \<notin> set seen" "length h' = length h"
  shows "unseen h' (seen @ [Obj a]) < unseen h seen"
proof -
  have "length (filter (\<lambda>b. Obj b \<notin> set (seen @ [Obj a])) [0..<length h])
        < length (filter (\<lambda>b. Obj b \<notin> set seen) [0..<length h])"
    using assms(1,2) by (intro length_filter_strict [where y = a]) auto
  with assms(3) show ?thesis by (simp add: unseen_def)
qed

lemma indexOf_range: "- 1 \<le> indexOf xs v"
  by (induction xs) (auto simp: Let_def)

lemma indexOf_absent: "indexOf xs v = - 1 \<longleftrightarrow> v \<notin> set xs"
proof (induction xs)
  case Nil
  then show ?case by simp
next
  case (Cons x xs)
  have "indexOf xs v + 1 \<noteq> - 1"
    using indexOf_range [of xs v] by linarith
  with Cons show ?case by (auto simp: Let_def)
qed

lemma length_Object_freeze: "length (Object_freeze h obj) = length h"
  by (cases obj) auto

lemma string_props_primitive:
  "map_of (string_props s) key = Some v \<Longrightarrow> typeof h v \<noteq> ''object''"
proof -
  assume "map_of (string_props s) key = Some v"
  then have "(key, v) \<in> set (string_props s)"
    by (rule map_of_SomeD)
  then have "v \<in> (\<lambda>c. Str [c]) ` set s \<or> v = Num (int (length s))"
    by (auto simp: string_props_def dest: set_zip_rightD)
  then show ?thesis by auto
qed

lemma object_value_allocated:
  assumes "get_property h obj key = Inr v" "typeof h v = ''object''" "\<not> isNull v"
  shows "allocated h obj"
proof (cases obj)
  case (Obj a)
  with assms show ?thesis
    by (auto simp: allocated_def split: if_splits)
next
  case (Str s)
  with assms string_props_primitive [of s key _ h] show ?thesis
    by (auto split: option.splits)
qed (use assms in auto)

lemma immutable_rec_grows_dom:
  "immutable_rec_forEach_key_dom (Inl (h, obj, seen)) \<Longrightarrow>
     immutable_rec h obj seen = Inr (r, h', seen') \<Longrightarrow> length h' = length h \<and> set seen \<subseteq> set seen'"
  "immutable_rec_forEach_key_dom (Inr (h, obj, keys, seen)) \<Longrightarrow>
     forEach_key h obj keys seen = Inr (h', seen') \<Longrightarrow> length h' = length h \<and> set seen \<subseteq> set seen'"
proof (induct arbitrary: r h' seen' and h' seen' rule: immutable_rec_forEach_key.pinduct)
  case (1 h obj seen)
  show ?case
  proof (cases "indexOf seen obj = - 1")
    case False
    with "1.prems" "1.hyps"(1) show ?thesis
      by (simp add: immutable_rec.psimps)
  next
    case True
    from "1.prems" True "1.hyps"(1) obtain keys where
      keys: "getOwnPropertyNames (Object_freeze h obj) obj = Inr keys"
      and run: "forEach_key (Object_freeze h obj) obj keys (seen @ [obj]) = Inr (h', seen')"
      by (auto simp: immutable_rec.psimps Let_def split: sum.splits)
    from "1.hyps"(2) [OF True refl refl keys run]
    show ?thesis by (simp add: length_Object_freeze)
  qed
next
  case (2 h obj seen)
  then show ?case by (simp add: forEach_key.psimps)
next
  case (3 h obj key keys seen)
  from "3.prems" "3.hyps"(1) obtain v where v: "get_property h obj key = Inr v"
    by (auto simp: forEach_key.psimps split: sum.splits)
  show ?case
  proof (cases "typeof h v = ''object'' \<and> \<not> isNull v")
    case False
    with "3.prems" "3.hyps"(1) v have "forEach_key h obj keys seen = Inr (h', seen')"
      by (simp add: forEach_key.psimps)
    from "3.hyps"(4) [OF v False this] show ?thesis .
  next
    case True
    with "3.prems" "3.hyps"(1) v obtain r1 h1 seen1 where
      inner: "immutable_rec h v seen = Inr (r1, h1, seen1)"
      and rest: "forEach_key h1 obj keys seen1 = Inr (h', seen')"
      by (auto simp: forEach_key.psimps split: sum.splits)
    from "3.hyps"(2) [OF v True inner] have a: "length h1 = length h \<and> set seen \<subseteq> set seen1" .
    from "3.hyps"(3) [OF v True inner refl refl rest]
    have "length h' = length h1 \<and> set seen1 \<subseteq> set seen'" .
    with a show ?thesis by auto
  qed
qed

termination immutable_rec
proof (relation "inv_image (less_than <*lex*> less_than <*lex*> less_than)
     (\<lambda>x. case x of
        Inl (h, obj, seen) \<Rightarrow> (unseen h seen, 1::nat, 0::nat)
      | Inr (h, obj, keys, seen) \<Rightarrow>
          if allocated h obj then (unseen h seen, 2, length keys) else (0, 0, length keys))",
    goal_cases)
  case 1
  show ?case by (intro wf_inv_image wf_lex_prod wf_less_than)
next
  case (2 h obj seen x xa b)
  show ?case
  proof (cases "allocated h obj")
    case True
    then obtain a where a: "obj = Obj a" "a < length h"
      by (auto simp: allocated_def split: jsval.splits)
    from 2 have "Obj a \<notin> set seen"
      using a indexOf_absent by simp
    from unseen_push [OF a(2) this length_Object_freeze [of h obj]] 2 a
    show ?thesis by (simp add: allocated_def)
  next
    case False
    with 2 show ?thesis
      by (auto simp: allocated_def length_Object_freeze split: jsval.splits)
  qed
next
  case (3 h obj key keys seen b)
  then have "allocated h obj"
    by (auto intro: object_value_allocated)
  then show ?case by simp
next
  case (4 h obj key keys seen b ba x y xa ya)
  from 4 have inner: "immutable_rec h b seen = Inr (x, xa, ya)"
    by auto
  from 4 have "immutable_rec_forEach_key_dom (Inl (h, b, seen))"
    by auto
  from immutable_rec_grows_dom(1) [OF this inner]
  have g: "length xa = length h" "set seen \<subseteq> set ya" by auto
  from unseen_mono [OF g] g(1) show ?case
    by (auto simp: allocated_def split: jsval.splits)
next
  case (5 h obj key keys seen b)
  then show ?case by simp
qed


declare immutable_rec.simps [simp del]

text \<open>\<open>immutable(obj)\<close> is \<open>_immutable(obj, [])\<close>; the list \<open>seen\<close> is dropped at the end.\<close>

definition immutable :: "heap \<Rightarrow> jsval \<Rightarrow> error + jsval \<times> heap" where
  "immutable h obj =
     (case immutable_rec h obj [] of
        Inl e \<Rightarrow> Inl e
      | Inr (r, h', seen) \<Rightarrow> Inr (r, h'))"

subsection \<open>What the traversal reaches\<close>

text \<open>
  The traversal goes from an object to the value of each of its own properties (as listed
  by \<open>Object.getOwnPropertyNames\<close>) for which \<open>typeof\<close> is \<open>"object"\<close> and which is not
  \<open>null\<close>. \<open>reach h root\<close> is everything it can get to from \<open>root\<close> that way.
\<close>

definition edge :: "heap \<Rightarrow> jsval \<Rightarrow> jsval \<Rightarrow> bool" where
  "edge h v w =
     (case getOwnPropertyNames h v of
        Inl e \<Rightarrow> False
      | Inr keys \<Rightarrow>
          (\<exists>key \<in> set keys. get_property h v key = Inr w \<and> typeof h w = ''object'' \<and> \<not> isNull w))"

inductive_set reach :: "heap \<Rightarrow> jsval \<Rightarrow> jsval set" for h :: heap and root :: jsval where
  reach_root: "root \<in> reach h root"
| reach_step: "v \<in> reach h root \<Longrightarrow> edge h v w \<Longrightarrow> w \<in> reach h root"

text \<open>
  \<open>frozen_at h h' S\<close>: the store \<open>h'\<close> is the store \<open>h\<close> with exactly the objects in \<open>S\<close>
  frozen. \<open>visit h seen h' seen'\<close>: a stretch of the traversal that took the store from \<open>h\<close>
  to \<open>h'\<close> and the list from \<open>seen\<close> to \<open>seen'\<close> froze exactly the objects it added to the
  list, added none twice, and finished every object it added (all successors are listed).
\<close>

definition frozen_at :: "heap \<Rightarrow> heap \<Rightarrow> jsval set \<Rightarrow> bool" where
  "frozen_at h h' S =
     (length h' = length h
      \<and> (\<forall>a < length h. h' ! a = (if Obj a \<in> S then freeze_object (h ! a) else h ! a)))"

definition visit :: "heap \<Rightarrow> jsval list \<Rightarrow> heap \<Rightarrow> jsval list \<Rightarrow> bool" where
  "visit h seen h' seen' =
     (set seen \<subseteq> set seen'
      \<and> (distinct seen \<longrightarrow> distinct seen')
      \<and> frozen_at h h' (set seen' - set seen)
      \<and> (\<forall>v \<in> set seen' - set seen. \<forall>w. edge h v w \<longrightarrow> w \<in> set seen'))"

lemma freeze_property_idem: "freeze_property (freeze_property p) = freeze_property p"
  by (simp add: freeze_property_def)

lemma freeze_object_idem: "freeze_object (freeze_object ob) = freeze_object ob"
  by (simp add: freeze_object_def freeze_property_idem split_def comp_def)

lemma freeze_object_keys: "map fst (obj_props (freeze_object ob)) = map fst (obj_props ob)"
  by (simp add: freeze_object_def split_def comp_def)

lemma freeze_object_callable: "obj_callable (freeze_object ob) = obj_callable ob"
  by (simp add: freeze_object_def)

lemma freeze_object_lookup:
  "map_of (obj_props (freeze_object ob)) key = map_option freeze_property (map_of (obj_props ob) key)"
  by (simp add: freeze_object_def map_of_map)

lemma freeze_object_value:
  "(case map_of (obj_props (freeze_object ob)) key of Some p \<Rightarrow> prop_value p | None \<Rightarrow> Undefined)
   = (case map_of (obj_props ob) key of Some p \<Rightarrow> prop_value p | None \<Rightarrow> Undefined)"
  by (simp add: freeze_object_lookup freeze_property_def split: option.splits)

lemma frozen_at_cell:
  "frozen_at h h' S \<Longrightarrow> a < length h \<Longrightarrow> h' ! a = h ! a \<or> h' ! a = freeze_object (h ! a)"
  by (auto simp: frozen_at_def)

lemma frozen_at_typeof: "frozen_at h h' S \<Longrightarrow> typeof h' v = typeof h v"
proof (cases v)
  case (Obj a)
  assume f: "frozen_at h h' S"
  then have len: "length h' = length h" by (simp add: frozen_at_def)
  show ?thesis
  proof (cases "a < length h")
    case True
    with frozen_at_cell [OF f True] len Obj show ?thesis
      by (auto simp: freeze_object_callable)
  next
    case False
    with len Obj show ?thesis by simp
  qed
qed simp_all

lemma frozen_at_names: "frozen_at h h' S \<Longrightarrow> getOwnPropertyNames h' v = getOwnPropertyNames h v"
proof (cases v)
  case (Obj a)
  assume f: "frozen_at h h' S"
  then have len: "length h' = length h" by (simp add: frozen_at_def)
  show ?thesis
  proof (cases "a < length h")
    case True
    with frozen_at_cell [OF f True] len Obj show ?thesis
      by (auto simp: freeze_object_keys)
  next
    case False
    with len Obj show ?thesis by simp
  qed
qed simp_all

lemma frozen_at_get: "frozen_at h h' S \<Longrightarrow> get_property h' v key = get_property h v key"
proof (cases v)
  case (Obj a)
  assume f: "frozen_at h h' S"
  then have len: "length h' = length h" by (simp add: frozen_at_def)
  show ?thesis
  proof (cases "a < length h")
    case True
    with frozen_at_cell [OF f True] len Obj show ?thesis
      by (auto simp: freeze_object_value)
  next
    case False
    with len Obj show ?thesis by simp
  qed
qed simp_all

lemma frozen_at_edge: "frozen_at h h' S \<Longrightarrow> edge h' v w = edge h v w"
  by (simp add: edge_def frozen_at_typeof frozen_at_names frozen_at_get cong: sum.case_cong)

lemma reach_mono_edge:
  "x \<in> reach h root \<Longrightarrow> (\<And>v w. edge h v w \<Longrightarrow> edge h' v w) \<Longrightarrow> x \<in> reach h' root"
  by (induction rule: reach.induct) (auto intro: reach.intros)

lemma frozen_at_reach:
  assumes "frozen_at h h' S"
  shows "reach h' root = reach h root"
proof (intro set_eqI iffI)
  fix x assume "x \<in> reach h' root"
  then show "x \<in> reach h root"
    by (rule reach_mono_edge) (simp add: frozen_at_edge [OF assms])
next
  fix x assume "x \<in> reach h root"
  then show "x \<in> reach h' root"
    by (rule reach_mono_edge) (simp add: frozen_at_edge [OF assms])
qed

lemma reach_trans: "v \<in> reach h w \<Longrightarrow> w \<in> reach h root \<Longrightarrow> v \<in> reach h root"
  by (induction rule: reach.induct) (auto intro: reach.intros)

lemma frozen_at_refl: "frozen_at h h {}"
  by (simp add: frozen_at_def)

lemma frozen_at_trans:
  assumes "frozen_at h h1 A" "frozen_at h1 h2 B"
  shows "frozen_at h h2 (A \<union> B)"
proof -
  from assms have len: "length h1 = length h" "length h2 = length h"
    by (simp_all add: frozen_at_def)
  have "h2 ! a = (if Obj a \<in> A \<union> B then freeze_object (h ! a) else h ! a)"
    if "a < length h" for a
  proof -
    from assms(1) that have 1: "h1 ! a = (if Obj a \<in> A then freeze_object (h ! a) else h ! a)"
      by (simp add: frozen_at_def)
    from assms(2) that len have 2: "h2 ! a = (if Obj a \<in> B then freeze_object (h1 ! a) else h1 ! a)"
      by (simp add: frozen_at_def)
    show ?thesis
      unfolding 2 1 by (simp add: freeze_object_idem)
  qed
  with len show ?thesis by (simp add: frozen_at_def)
qed

lemma frozen_at_freeze: "frozen_at h (Object_freeze h obj) {obj}"
  by (cases obj) (auto simp: frozen_at_def nth_list_update)

lemma visit_refl: "visit h seen h seen"
  by (simp add: visit_def frozen_at_refl)

lemma visit_trans:
  assumes "visit h seen h1 seen1" "visit h1 seen1 h2 seen2"
  shows "visit h seen h2 seen2"
proof -
  from assms have sub: "set seen \<subseteq> set seen1" "set seen1 \<subseteq> set seen2"
    by (auto simp: visit_def)
  from assms have f1: "frozen_at h h1 (set seen1 - set seen)"
    and f2: "frozen_at h1 h2 (set seen2 - set seen1)"
    by (auto simp: visit_def)
  from sub have "(set seen1 - set seen) \<union> (set seen2 - set seen1) = set seen2 - set seen"
    by auto
  with frozen_at_trans [OF f1 f2] have f: "frozen_at h h2 (set seen2 - set seen)"
    by simp
  have closed: "\<forall>v \<in> set seen2 - set seen. \<forall>w. edge h v w \<longrightarrow> w \<in> set seen2"
  proof (intro ballI allI impI)
    fix v w assume v: "v \<in> set seen2 - set seen" and e: "edge h v w"
    show "w \<in> set seen2"
    proof (cases "v \<in> set seen1")
      case True
      with v assms(1) e have "w \<in> set seen1" by (auto simp: visit_def)
      with sub show ?thesis by auto
    next
      case False
      from e have "edge h1 v w" by (simp add: frozen_at_edge [OF f1])
      with False v assms(2) show ?thesis by (auto simp: visit_def)
    qed
  qed
  from assms have "distinct seen \<longrightarrow> distinct seen2"
    by (simp add: visit_def)
  with sub f closed show ?thesis
    unfolding visit_def by blast
qed


definition object_valued :: "heap \<Rightarrow> jsval \<Rightarrow> string \<Rightarrow> jsval \<Rightarrow> bool" where
  "object_valued h obj key w =
     (get_property h obj key = Inr w \<and> typeof h w = ''object'' \<and> \<not> isNull w)"

lemma frozen_at_object_valued:
  "frozen_at h h' S \<Longrightarrow> object_valued h' obj key w = object_valued h obj key w"
  by (simp add: object_valued_def frozen_at_get frozen_at_typeof)

lemma edge_object_valued:
  "edge h v w \<longleftrightarrow> (\<exists>keys. getOwnPropertyNames h v = Inr keys \<and> (\<exists>key \<in> set keys. object_valued h v key w))"
  by (auto simp: edge_def object_valued_def split: sum.splits)

lemma immutable_rec_visit:
  "immutable_rec h obj seen = Inr (r, h', seen') \<Longrightarrow>
     r = obj \<and> obj \<in> set seen' \<and> visit h seen h' seen' \<and> set seen' - set seen \<subseteq> reach h obj"
  "forEach_key h obj keys seen = Inr (h', seen') \<Longrightarrow>
     visit h seen h' seen'
     \<and> (\<forall>key \<in> set keys. \<forall>w. object_valued h obj key w \<longrightarrow> w \<in> set seen')
     \<and> (\<forall>v \<in> set seen' - set seen. \<exists>key \<in> set keys. \<exists>w. object_valued h obj key w \<and> v \<in> reach h w)"
proof (induction h obj seen and h obj keys seen arbitrary: r h' seen' and h' seen'
       rule: immutable_rec_forEach_key.induct)
  case (1 h obj seen)
  show ?case
  proof (cases "indexOf seen obj = - 1")
    case False
    with "1.prems" have "r = obj" "h' = h" "seen' = seen"
      by (simp_all add: immutable_rec.simps)
    moreover from False have "obj \<in> set seen"
      by (simp add: indexOf_absent)
    ultimately show ?thesis
      by (simp add: visit_refl)
  next
    case True
    let ?h1 = "Object_freeze h obj"
    let ?seen1 = "seen @ [obj]"
    from True have fresh: "obj \<notin> set seen"
      by (simp add: indexOf_absent)
    from "1.prems" True obtain keys where
      names: "getOwnPropertyNames ?h1 obj = Inr keys"
      and run: "forEach_key ?h1 obj keys ?seen1 = Inr (h', seen')"
      and r: "r = obj"
      by (auto simp: immutable_rec.simps Let_def split: sum.splits)
    from "1.IH" [OF True refl refl names run]
    have v1: "visit ?h1 ?seen1 h' seen'"
      and cover: "\<forall>key \<in> set keys. \<forall>w. object_valued ?h1 obj key w \<longrightarrow> w \<in> set seen'"
      and origin: "\<forall>v \<in> set seen' - set ?seen1.
                     \<exists>key \<in> set keys. \<exists>w. object_valued ?h1 obj key w \<and> v \<in> reach ?h1 w"
      by blast+
    have fz: "frozen_at h ?h1 {obj}"
      by (rule frozen_at_freeze)
    from v1 have sub1: "set ?seen1 \<subseteq> set seen'"
      by (simp add: visit_def)
    then have inn: "obj \<in> set seen'" and sub: "set seen \<subseteq> set seen'"
      by auto
    from v1 fresh have dist: "distinct seen \<longrightarrow> distinct seen'"
      by (simp add: visit_def)
    from v1 have "frozen_at ?h1 h' (set seen' - set ?seen1)"
      by (simp add: visit_def)
    from frozen_at_trans [OF fz this]
    have "frozen_at h h' ({obj} \<union> (set seen' - set ?seen1))" .
    moreover from fresh inn have "{obj} \<union> (set seen' - set ?seen1) = set seen' - set seen"
      by auto
    ultimately have fa: "frozen_at h h' (set seen' - set seen)"
      by simp
    have out_obj: "w \<in> set seen'" if "edge h obj w" for w
    proof -
      from that have "edge ?h1 obj w"
        by (simp add: frozen_at_edge [OF fz])
      with names obtain key where "key \<in> set keys" "object_valued ?h1 obj key w"
        by (auto simp: edge_object_valued)
      with cover show ?thesis by blast
    qed
    have closed: "\<forall>v \<in> set seen' - set seen. \<forall>w. edge h v w \<longrightarrow> w \<in> set seen'"
    proof (intro ballI allI impI)
      fix v w assume v: "v \<in> set seen' - set seen" and e: "edge h v w"
      show "w \<in> set seen'"
      proof (cases "v = obj")
        case True
        with e out_obj show ?thesis by simp
      next
        case False
        with v have "v \<in> set seen' - set ?seen1" by simp
        moreover from e have "edge ?h1 v w"
          by (simp add: frozen_at_edge [OF fz])
        ultimately show ?thesis
          using v1 by (auto simp: visit_def)
      qed
    qed
    have reachable: "set seen' - set seen \<subseteq> reach h obj"
    proof
      fix v assume v: "v \<in> set seen' - set seen"
      show "v \<in> reach h obj"
      proof (cases "v = obj")
        case True
        then show ?thesis by (simp add: reach_root)
      next
        case False
        with v have "v \<in> set seen' - set ?seen1" by simp
        with origin obtain key w where
          k: "key \<in> set keys" "object_valued ?h1 obj key w" "v \<in> reach ?h1 w"
          by blast
        from k(1,2) names have "edge ?h1 obj w"
          by (auto simp: edge_object_valued)
        then have "w \<in> reach ?h1 obj"
          by (intro reach_step [OF reach_root])
        with k(3) have "v \<in> reach ?h1 obj"
          by (rule reach_trans)
        then show ?thesis
          by (simp add: frozen_at_reach [OF fz])
      qed
    qed
    from sub dist fa closed have "visit h seen h' seen'"
      unfolding visit_def by blast
    with r inn reachable show ?thesis by blast
  qed
next
  case (2 h obj seen)
  then show ?case by (simp add: visit_refl)
next
  case (3 h obj key keys seen)
  from "3.prems" obtain b where b: "get_property h obj key = Inr b"
    by (auto split: sum.splits)
  show ?case
  proof (cases "typeof h b = ''object'' \<and> \<not> isNull b")
    case False
    with "3.prems" b have run: "forEach_key h obj keys seen = Inr (h', seen')"
      by simp
    from "3.IH"(3) [OF b False run]
    have v: "visit h seen h' seen'"
      and cover: "\<forall>key \<in> set keys. \<forall>w. object_valued h obj key w \<longrightarrow> w \<in> set seen'"
      and origin: "\<forall>v \<in> set seen' - set seen.
                     \<exists>key \<in> set keys. \<exists>w. object_valued h obj key w \<and> v \<in> reach h w"
      by blast+
    from b False have none: "\<not> object_valued h obj key w" for w
      by (auto simp: object_valued_def)
    from cover none have "\<forall>k \<in> set (key # keys). \<forall>w. object_valued h obj k w \<longrightarrow> w \<in> set seen'"
      by simp
    moreover from origin
    have "\<forall>v \<in> set seen' - set seen.
            \<exists>k \<in> set (key # keys). \<exists>w. object_valued h obj k w \<and> v \<in> reach h w"
      by fastforce
    ultimately show ?thesis using v by blast
  next
    case True
    with "3.prems" b obtain r1 h1 seen1 where
      inner: "immutable_rec h b seen = Inr (r1, h1, seen1)"
      and run: "forEach_key h1 obj keys seen1 = Inr (h', seen')"
      by (auto split: sum.splits)
    from "3.IH"(1) [OF b True inner]
    have bin: "b \<in> set seen1" and v1: "visit h seen h1 seen1"
      and reach1: "set seen1 - set seen \<subseteq> reach h b"
      by blast+
    from "3.IH"(2) [OF b True inner refl refl run]
    have v2: "visit h1 seen1 h' seen'"
      and cover2: "\<forall>key \<in> set keys. \<forall>w. object_valued h1 obj key w \<longrightarrow> w \<in> set seen'"
      and origin2: "\<forall>v \<in> set seen' - set seen1.
                     \<exists>key \<in> set keys. \<exists>w. object_valued h1 obj key w \<and> v \<in> reach h1 w"
      by blast+
    from v1 have fz: "frozen_at h h1 (set seen1 - set seen)"
      by (simp add: visit_def)
    note ov = frozen_at_object_valued [OF fz]
    note rc = frozen_at_reach [OF fz]
    from v2 have sub2: "set seen1 \<subseteq> set seen'"
      by (simp add: visit_def)
    from b True have bval: "object_valued h obj key b"
      by (simp add: object_valued_def)
    have v: "visit h seen h' seen'"
      using v1 v2 by (rule visit_trans)
    have cover: "\<forall>k \<in> set (key # keys). \<forall>w. object_valued h obj k w \<longrightarrow> w \<in> set seen'"
    proof (intro ballI allI impI)
      fix k w assume k: "k \<in> set (key # keys)" and w: "object_valued h obj k w"
      show "w \<in> set seen'"
      proof (cases "k \<in> set keys")
        case True
        with cover2 w show ?thesis by (simp add: ov)
      next
        case False
        with k have "k = key" by simp
        with w b have "w = b" by (simp add: object_valued_def)
        with bin sub2 show ?thesis by auto
      qed
    qed
    have origin: "\<forall>v \<in> set seen' - set seen.
            \<exists>k \<in> set (key # keys). \<exists>w. object_valued h obj k w \<and> v \<in> reach h w"
    proof
      fix v assume v: "v \<in> set seen' - set seen"
      show "\<exists>k \<in> set (key # keys). \<exists>w. object_valued h obj k w \<and> v \<in> reach h w"
      proof (cases "v \<in> set seen1")
        case True
        with v reach1 have "v \<in> reach h b" by auto
        with bval show ?thesis by auto
      next
        case False
        with v origin2 obtain k w where
          "k \<in> set keys" "object_valued h1 obj k w" "v \<in> reach h1 w"
          by blast
        then show ?thesis by (auto simp: ov rc)
      qed
    qed
    from v cover origin show ?thesis by blast
  qed
qed


lemma get_property_defined:
  "obj \<noteq> Null \<Longrightarrow> obj \<noteq> Undefined \<Longrightarrow> \<exists>v. get_property h obj key = Inr v"
  by (cases obj) auto

lemma getOwnPropertyNames_defined:
  "obj \<noteq> Null \<Longrightarrow> obj \<noteq> Undefined \<Longrightarrow> \<exists>keys. getOwnPropertyNames h obj = Inr keys"
  by (cases obj) auto

lemma immutable_rec_returns:
  "obj \<noteq> Null \<Longrightarrow> obj \<noteq> Undefined \<Longrightarrow>
     \<exists>h' seen'. immutable_rec h obj seen = Inr (obj, h', seen')"
  "obj \<noteq> Null \<Longrightarrow> obj \<noteq> Undefined \<Longrightarrow>
     \<exists>h' seen'. forEach_key h obj keys seen = Inr (h', seen')"
proof (induction h obj seen and h obj keys seen rule: immutable_rec_forEach_key.induct)
  case (1 h obj seen)
  show ?case
  proof (cases "indexOf seen obj = - 1")
    case False
    then show ?thesis by (simp add: immutable_rec.simps)
  next
    case True
    from getOwnPropertyNames_defined [OF "1.prems"] obtain keys where
      names: "getOwnPropertyNames (Object_freeze h obj) obj = Inr keys"
      by blast
    from "1.IH" [OF True refl refl names "1.prems"] obtain h' seen' where
      "forEach_key (Object_freeze h obj) obj keys (seen @ [obj]) = Inr (h', seen')"
      by blast
    with True names show ?thesis
      by (simp add: immutable_rec.simps)
  qed
next
  case (2 h obj seen)
  show ?case by simp
next
  case (3 h obj key keys seen)
  from get_property_defined [OF "3.prems"] obtain b where b: "get_property h obj key = Inr b"
    by blast
  show ?case
  proof (cases "typeof h b = ''object'' \<and> \<not> isNull b")
    case False
    with "3.IH"(3) [OF b False "3.prems"] b show ?thesis by auto
  next
    case True
    then have nn: "b \<noteq> Null" "b \<noteq> Undefined"
      by (auto simp: isNull_def)
    from "3.IH"(1) [OF b True nn] obtain h1 seen1 where
      inner: "immutable_rec h b seen = Inr (b, h1, seen1)"
      by blast
    from "3.IH"(2) [OF b True inner refl refl "3.prems"] obtain h' seen' where
      "forEach_key h1 obj keys seen1 = Inr (h', seen')"
      by blast
    with b True inner show ?thesis by simp
  qed
qed

lemma immutable_rec_top:
  assumes "immutable_rec h root [] = Inr (r, h', seen')"
  shows "r = root" and "distinct seen'" and "set seen' = reach h root"
    and "frozen_at h h' (reach h root)"
proof -
  from immutable_rec_visit(1) [OF assms]
  have r: "r = root" and rin: "root \<in> set seen'" and v: "visit h [] h' seen'"
    and sub: "set seen' \<subseteq> reach h root"
    by auto
  from v have closed: "\<And>v w. v \<in> set seen' \<Longrightarrow> edge h v w \<Longrightarrow> w \<in> set seen'"
    by (auto simp: visit_def)
  have "x \<in> set seen'" if "x \<in> reach h root" for x
    using that by (induction rule: reach.induct) (auto intro: rin closed)
  with sub have eq: "set seen' = reach h root" by auto
  from v show "distinct seen'" by (simp add: visit_def)
  from v eq show "frozen_at h h' (reach h root)" by (simp add: visit_def)
  from r show "r = root" .
  from eq show "set seen' = reach h root" .
qed

lemma is_frozen_freeze_object: "is_frozen (freeze_object ob)"
  by (simp add: is_frozen_def freeze_object_def freeze_property_def list_all_iff split_def)

lemma freeze_object_frozen: "is_frozen ob \<Longrightarrow> freeze_object ob = ob"
proof -
  assume f: "is_frozen ob"
  have "map (\<lambda>(k, p). (k, freeze_property p)) (obj_props ob) = obj_props ob"
    using f by (intro map_idI) (auto simp: is_frozen_def list_all_iff freeze_property_def)
  with f show ?thesis
    by (simp add: freeze_object_def is_frozen_def)
qed

lemma reach_cases_typeof:
  "v \<in> reach h root \<Longrightarrow> v = root \<or> (typeof h v = ''object'' \<and> v \<noteq> Null)"
  by (induction rule: reach.induct) (auto simp: edge_def isNull_def split: sum.splits)

lemma edge_allocated: "edge h v w \<Longrightarrow> allocated h v"
  by (auto simp: edge_def split: sum.splits intro: object_value_allocated)

lemma reach_primitive: "\<not> allocated h root \<Longrightarrow> reach h root = {root}"
proof -
  assume na: "\<not> allocated h root"
  have "x = root" if "x \<in> reach h root" for x
    using that by (induction rule: reach.induct) (auto dest: edge_allocated simp: na)
  then show ?thesis by (auto intro: reach_root)
qed

text \<open>A store in which the objects to freeze are unchanged by freezing is the same store.\<close>

lemma frozen_at_same:
  assumes "frozen_at h h' S" "\<forall>a < length h. Obj a \<in> S \<longrightarrow> freeze_object (h ! a) = h ! a"
  shows "h' = h"
proof (rule nth_equalityI)
  from assms(1) show "length h' = length h"
    by (simp add: frozen_at_def)
next
  fix a assume "a < length h'"
  with assms show "h' ! a = h ! a"
    by (auto simp: frozen_at_def)
qed


subsection \<open>Example stores\<close>

text \<open>
  A property made by an assignment or an object literal is enumerable, writable and
  configurable; \<open>hidden_property\<close> is one made non-enumerable with
  \<open>Object.defineProperty\<close>. \<open>h_cycle\<close> is \<open>x\<close> with \<open>x.self = x\<close>; \<open>h_diamond\<close> is
  \<open>y = {left: z, right: z}\<close>.
\<close>

definition data_property :: "jsval \<Rightarrow> property" where
  "data_property v =
     \<lparr>prop_value = v, prop_enumerable = True, prop_writable = True, prop_configurable = True\<rparr>"

definition hidden_property :: "jsval \<Rightarrow> property" where
  "hidden_property v =
     \<lparr>prop_value = v, prop_enumerable = False, prop_writable = True, prop_configurable = True\<rparr>"

definition plain_object :: "(string \<times> property) list \<Rightarrow> object" where
  "plain_object ps =
     \<lparr>obj_props = ps, obj_proto = Null, obj_extensible = True, obj_callable = False\<rparr>"

definition function_object :: "(string \<times> property) list \<Rightarrow> object" where
  "function_object ps =
     \<lparr>obj_props = ps, obj_proto = Null, obj_extensible = True, obj_callable = True\<rparr>"

definition h_cycle :: heap where
  "h_cycle = [plain_object [(''self'', data_property (Obj 0))]]"

definition h_diamond :: heap where
  "h_diamond =
     [plain_object [(''left'', data_property (Obj 1)), (''right'', data_property (Obj 1))],
      plain_object [(''n'', data_property (Num 1))]]"

lemma eval_cycle:
  "immutable_rec h_cycle (Obj 0) [] = Inr (Obj 0, map freeze_object h_cycle, [Obj 0])"
  by (simp add: immutable_rec.simps h_cycle_def plain_object_def data_property_def isNull_def
      freeze_object_def freeze_property_def)


text \<open>
  \<open>h_hidden\<close>: an object whose only property is non-enumerable and holds another object.
  \<open>h_inherit\<close>: an object with one own property holding an object, and a prototype that
  has a property holding yet another object. \<open>h_fn\<close>: a function \<open>f\<close> with \<open>f.me = f\<close>.
  \<open>h_method\<close>: an object with a method \<open>run\<close>; the function has a property of its own that
  holds an object.
\<close>

definition h_hidden :: heap where
  "h_hidden = [plain_object [(''secret'', hidden_property (Obj 1))], plain_object []]"

definition h_inherit :: heap where
  "h_inherit =
     [(plain_object [(''own'', data_property (Obj 1))])\<lparr>obj_proto := Obj 2\<rparr>,
      plain_object [],
      plain_object [(''shared'', data_property (Obj 3))],
      plain_object []]"

definition h_fn :: heap where
  "h_fn = [function_object [(''me'', data_property (Obj 0))]]"

definition h_method :: heap where
  "h_method =
     [plain_object [(''run'', data_property (Obj 1))],
      function_object [(''meta'', data_property (Obj 2))],
      plain_object []]"

lemmas example_defs =
  h_cycle_def h_diamond_def h_hidden_def h_inherit_def h_fn_def h_method_def
  plain_object_def function_object_def data_property_def hidden_property_def
  isNull_def freeze_object_def freeze_property_def

lemma eval_hidden:
  "immutable_rec h_hidden (Obj 0) [] = Inr (Obj 0, map freeze_object h_hidden, [Obj 0, Obj 1])"
  by (simp add: immutable_rec.simps example_defs)

lemma eval_inherit:
  "immutable_rec h_inherit (Obj 0) [] =
     Inr (Obj 0,
          [freeze_object (h_inherit ! 0), freeze_object (h_inherit ! 1), h_inherit ! 2, h_inherit ! 3],
          [Obj 0, Obj 1])"
  by (simp add: immutable_rec.simps example_defs)

lemma eval_fn:
  "immutable_rec h_fn (Obj 0) [] = Inr (Obj 0, map freeze_object h_fn, [Obj 0])"
  by (simp add: immutable_rec.simps example_defs)

lemma eval_method:
  "immutable_rec h_method (Obj 0) [] =
     Inr (Obj 0, [freeze_object (h_method ! 0), h_method ! 1, h_method ! 2], [Obj 0])"
  by (simp add: immutable_rec.simps example_defs)

lemma immutable_of_rec:
  "immutable_rec h obj [] = Inr (r, h', seen') \<Longrightarrow> immutable h obj = Inr (r, h')"
  by (simp add: immutable_def)

section \<open>Claims about \<open>immutable\<close>\<close>



text \<open>
  C6, as the specification states it: the traversal recurses into exactly the enumerable
  properties, and non-enumerable properties are not frozen by it. The code lists the
  properties with \<open>Object.getOwnPropertyNames\<close>, which includes the non-enumerable ones: an
  object held by a non-enumerable own property is frozen.
\<close>

theorem immutable_freezes_non_enumerable:
  "obj_props (h_hidden ! 0) = [(''secret'', hidden_property (Obj 1))]
   \<and> \<not> prop_enumerable (hidden_property (Obj 1))
   \<and> \<not> Object_isFrozen h_hidden (Obj 1)
   \<and> immutable h_hidden (Obj 0) = Inr (Obj 0, map freeze_object h_hidden)
   \<and> Object_isFrozen (map freeze_object h_hidden) (Obj 1)"
  by (simp add: immutable_of_rec [OF eval_hidden])
     (simp add: example_defs is_frozen_def)

text \<open>
  C6, amended. After \<open>immutable(root)\<close> returns, \<open>root\<close> is frozen and so is every object
  that can be reached from it by a chain of own properties, enumerable or not, in which
  every value has \<open>typeof\<close> \<open>"object"\<close> and is not \<open>null\<close> (the set \<open>reach\<close>); the traversal
  recurses into exactly these. Every other object is left as it was: for instance one
  that is reachable through inherited properties only, or only by way of a property of a
  function.
\<close>

theorem immutable_freezes_own_reachable:
  "\<exists>h'. immutable h (Obj r) = Inr (Obj r, h') \<and> length h' = length h
      \<and> (\<forall>a < length h.
            (Obj a \<in> reach h (Obj r) \<longrightarrow> h' ! a = freeze_object (h ! a) \<and> is_frozen (h' ! a))
          \<and> (Obj a \<notin> reach h (Obj r) \<longrightarrow> h' ! a = h ! a))"
proof -
  from immutable_rec_returns(1) [of "Obj r" h "[]"] obtain h' seen' where
    run: "immutable_rec h (Obj r) [] = Inr (Obj r, h', seen')"
    by auto
  from immutable_rec_top(4) [OF run] have "frozen_at h h' (reach h (Obj r))" .
  then have "length h' = length h"
    and "\<forall>a < length h.
            (Obj a \<in> reach h (Obj r) \<longrightarrow> h' ! a = freeze_object (h ! a) \<and> is_frozen (h' ! a))
          \<and> (Obj a \<notin> reach h (Obj r) \<longrightarrow> h' ! a = h ! a)"
    by (simp_all add: frozen_at_def is_frozen_freeze_object)
  with immutable_of_rec [OF run] show ?thesis by blast
qed

theorem immutable_freezes_own_reachable_witness:
  "Obj 1 \<in> reach h_inherit (Obj 0) \<and> Obj 3 \<notin> reach h_inherit (Obj 0)
   \<and> obj_proto (h_inherit ! 0) = Obj 2
   \<and> get_property h_inherit (Obj 2) ''shared'' = Inr (Obj 3)
   \<and> immutable h_inherit (Obj 0) =
       Inr (Obj 0, [freeze_object (h_inherit ! 0), freeze_object (h_inherit ! 1),
                    h_inherit ! 2, h_inherit ! 3])
   \<and> is_frozen (freeze_object (h_inherit ! 1))
   \<and> typeof h_method (Obj 2) = ''object''
   \<and> get_property h_method (Obj 0) ''run'' = Inr (Obj 1)
   \<and> get_property h_method (Obj 1) ''meta'' = Inr (Obj 2)
   \<and> Obj 2 \<notin> reach h_method (Obj 0)
   \<and> immutable h_method (Obj 0) =
       Inr (Obj 0, [freeze_object (h_method ! 0), h_method ! 1, h_method ! 2])"
proof -
  have r: "reach h_inherit (Obj 0) = {Obj 0, Obj 1}"
    using immutable_rec_top(3) [OF eval_inherit] by simp
  have m: "typeof h_method (Obj 2) = ''object''"
    "get_property h_method (Obj 0) ''run'' = Inr (Obj 1)"
    "get_property h_method (Obj 1) ''meta'' = Inr (Obj 2)"
    by (simp_all add: example_defs)
  have "reach h_method (Obj 0) = {Obj 0}"
    using immutable_rec_top(3) [OF eval_method] by simp
  then have rm: "Obj 2 \<notin> reach h_method (Obj 0)"
    by simp
  have len2: "(2::nat) < length h_method"
    by (simp add: h_method_def)
  from immutable_freezes_own_reachable [of h_method 0] obtain hm where
    runm: "immutable h_method (Obj 0) = Inr (Obj 0, hm)"
    and frm: "\<forall>a < length h_method.
            (Obj a \<in> reach h_method (Obj 0) \<longrightarrow>
               hm ! a = freeze_object (h_method ! a) \<and> is_frozen (hm ! a))
          \<and> (Obj a \<notin> reach h_method (Obj 0) \<longrightarrow> hm ! a = h_method ! a)"
    by blast
  from frm len2 rm have "hm ! 2 = h_method ! 2"
    by blast
  have im: "immutable h_method (Obj 0) =
       Inr (Obj 0, [freeze_object (h_method ! 0), h_method ! 1, h_method ! 2])"
    by (rule immutable_of_rec [OF eval_method])
  from immutable_freezes_own_reachable [of h_inherit 0] obtain h' where
    run: "immutable h_inherit (Obj 0) = Inr (Obj 0, h')"
    and fr: "\<forall>a < length h_inherit.
            (Obj a \<in> reach h_inherit (Obj 0) \<longrightarrow>
               h' ! a = freeze_object (h_inherit ! a) \<and> is_frozen (h' ! a))
          \<and> (Obj a \<notin> reach h_inherit (Obj 0) \<longrightarrow> h' ! a = h_inherit ! a)"
    by blast
  have len: "(1::nat) < length h_inherit"
    by (simp add: h_inherit_def)
  from fr len r have "is_frozen (h' ! 1)" "h' ! 1 = freeze_object (h_inherit ! 1)"
    by auto
  then have "is_frozen (freeze_object (h_inherit ! 1))"
    by simp
  moreover have "obj_proto (h_inherit ! 0) = Obj 2"
    "get_property h_inherit (Obj 2) ''shared'' = Inr (Obj 3)"
    by (simp_all add: h_inherit_def plain_object_def data_property_def)
  ultimately have inh: "is_frozen (freeze_object (h_inherit ! 1))
      \<and> obj_proto (h_inherit ! 0) = Obj 2
      \<and> get_property h_inherit (Obj 2) ''shared'' = Inr (Obj 3)"
    by blast
  from r have ri: "Obj 1 \<in> reach h_inherit (Obj 0)" "Obj 3 \<notin> reach h_inherit (Obj 0)"
    by simp_all
  from ri inh m rm im immutable_of_rec [OF eval_inherit] show ?thesis
    by blast
qed


text \<open>
  C7, as the specification states it: for every value \<open>x\<close>, \<open>immutable\<close> returns \<open>x\<close>, and
  freezing a primitive is a no-op rather than an error. For the primitives \<open>null\<close> and
  \<open>undefined\<close> \<open>Object.getOwnPropertyNames\<close> raises a \<open>TypeError\<close>.
\<close>

theorem immutable_null_raises:
  "immutable [] Null = Inl TypeError \<and> immutable [] Undefined = Inl TypeError"
  by (simp add: immutable_def immutable_rec.simps)

text \<open>
  C7, amended. Let \<open>x\<close> be a value of the model other than \<open>null\<close> and \<open>undefined\<close>: an
  ordinary object (a plain object, an array or a function, in a store of such objects), a
  boolean, a string or a number that is not \<open>NaN\<close>. Then \<open>immutable(x)\<close> raises no error
  and returns \<open>x\<close> itself, and \<open>immutable(immutable(x))\<close> returns \<open>x\<close> again and leaves the
  store as the first call left it. For a primitive \<open>x\<close> the call changes nothing; when
  every object reachable from \<open>x\<close> is frozen already the call changes nothing; and an
  object that is frozen already is never changed.
\<close>

theorem immutable_idempotent:
  assumes "x \<noteq> Null" "x \<noteq> Undefined"
  shows "\<exists>h'. immutable h x = Inr (x, h') \<and> immutable h' x = Inr (x, h')
            \<and> ((\<forall>a. x \<noteq> Obj a) \<longrightarrow> h' = h)
            \<and> ((\<forall>a < length h. Obj a \<in> reach h x \<longrightarrow> is_frozen (h ! a)) \<longrightarrow> h' = h)
            \<and> (\<forall>a < length h. is_frozen (h ! a) \<longrightarrow> h' ! a = h ! a)"
proof -
  from immutable_rec_returns(1) [OF assms, of h "[]"] obtain h' seen' where
    run: "immutable_rec h x [] = Inr (x, h', seen')"
    by auto
  from immutable_rec_top(4) [OF run] have fz: "frozen_at h h' (reach h x)" .
  then have len: "length h' = length h"
    by (simp add: frozen_at_def)
  from immutable_rec_returns(1) [OF assms, of h' "[]"] obtain h'' seen'' where
    again: "immutable_rec h' x [] = Inr (x, h'', seen'')"
    by auto
  from immutable_rec_top(4) [OF again] have fz2: "frozen_at h' h'' (reach h' x)" .
  have "\<forall>a < length h'. Obj a \<in> reach h' x \<longrightarrow> freeze_object (h' ! a) = h' ! a"
    using fz len by (auto simp: frozen_at_def frozen_at_reach [OF fz] freeze_object_idem)
  with fz2 have same: "h'' = h'"
    by (rule frozen_at_same)
  have prim: "h' = h" if "\<forall>a. x \<noteq> Obj a"
  proof -
    from that have "\<not> allocated h x"
      by (cases x) (auto simp: allocated_def)
    then have "reach h x = {x}"
      by (rule reach_primitive)
    with that have "\<forall>a < length h. Obj a \<in> reach h x \<longrightarrow> freeze_object (h ! a) = h ! a"
      by auto
    with fz show ?thesis by (rule frozen_at_same)
  qed
  have deep: "h' = h" if "\<forall>a < length h. Obj a \<in> reach h x \<longrightarrow> is_frozen (h ! a)"
  proof -
    from that have "\<forall>a < length h. Obj a \<in> reach h x \<longrightarrow> freeze_object (h ! a) = h ! a"
      by (auto intro: freeze_object_frozen)
    with fz show ?thesis by (rule frozen_at_same)
  qed
  have keep: "\<forall>a < length h. is_frozen (h ! a) \<longrightarrow> h' ! a = h ! a"
    using fz by (auto simp: frozen_at_def freeze_object_frozen)
  from immutable_of_rec [OF run] immutable_of_rec [OF again] same prim deep keep
  show ?thesis by blast
qed

theorem immutable_idempotent_witness:
  "Obj 0 \<noteq> Null \<and> Obj 0 \<noteq> Undefined
   \<and> immutable h_cycle (Obj 0) = Inr (Obj 0, map freeze_object h_cycle)
   \<and> immutable (map freeze_object h_cycle) (Obj 0) = Inr (Obj 0, map freeze_object h_cycle)
   \<and> immutable h_cycle (Num 5) = Inr (Num 5, h_cycle)"
proof -
  from immutable_idempotent [of "Obj 0" h_cycle] obtain h' where
    "immutable h_cycle (Obj 0) = Inr (Obj 0, h')" "immutable h' (Obj 0) = Inr (Obj 0, h')"
    by auto
  with immutable_of_rec [OF eval_cycle]
  have "immutable (map freeze_object h_cycle) (Obj 0) = Inr (Obj 0, map freeze_object h_cycle)"
    by simp
  moreover from immutable_idempotent [of "Num 5" h_cycle]
  have "immutable h_cycle (Num 5) = Inr (Num 5, h_cycle)"
    by auto
  ultimately show ?thesis
    using immutable_of_rec [OF eval_cycle] by simp
qed

text \<open>
  C10, as the specification states it: for every object graph, an enumerable property
  whose value is a function is left unfrozen. The argument of \<open>immutable\<close> itself is frozen
  whatever \<open>typeof\<close> says about it: for a function \<open>f\<close> with \<open>f.me = f\<close>, \<open>immutable(f)\<close>
  freezes the function that the enumerable property \<open>me\<close> holds.
\<close>

theorem immutable_freezes_function_root:
  "typeof h_fn (Obj 0) = ''function''
   \<and> obj_props (h_fn ! 0) = [(''me'', data_property (Obj 0))]
   \<and> prop_enumerable (data_property (Obj 0))
   \<and> get_property h_fn (Obj 0) ''me'' = Inr (Obj 0)
   \<and> \<not> Object_isFrozen h_fn (Obj 0)
   \<and> immutable h_fn (Obj 0) = Inr (Obj 0, map freeze_object h_fn)
   \<and> Object_isFrozen (map freeze_object h_fn) (Obj 0)"
  by (simp add: immutable_of_rec [OF eval_fn])
     (simp add: example_defs is_frozen_def)

text \<open>
  C10, amended. \<open>immutable\<close> does not freeze or recurse into function-valued properties:
  the step for a property whose value is a function does nothing, the traversal only
  descends into values for which \<open>typeof\<close> is \<open>"object"\<close> and which are not \<open>null\<close>, and
  every function other than the argument of \<open>immutable\<close> itself is left as it was.
\<close>

theorem immutable_skips_functions:
  "(get_property h obj key = Inr v \<and> typeof h v = ''function''
      \<longrightarrow> forEach_key h obj (key # keys) seen = forEach_key h obj keys seen)
   \<and> (\<exists>h' seen'. immutable_rec h (Obj r) [] = Inr (Obj r, h', seen')
        \<and> (\<forall>v \<in> set seen'. v = Obj r \<or> typeof h v = ''object'' \<and> v \<noteq> Null)
        \<and> (\<forall>a < length h. typeof h (Obj a) = ''function'' \<and> a \<noteq> r
              \<longrightarrow> Obj a \<notin> set seen' \<and> h' ! a = h ! a))"
proof -
  from immutable_rec_returns(1) [of "Obj r" h "[]"] obtain h' seen' where
    run: "immutable_rec h (Obj r) [] = Inr (Obj r, h', seen')"
    by auto
  note top = immutable_rec_top [OF run]
  have kinds: "\<forall>v \<in> set seen'. v = Obj r \<or> typeof h v = ''object'' \<and> v \<noteq> Null"
    using top(3) reach_cases_typeof [of _ h "Obj r"] by blast
  have skip: "\<forall>a < length h. typeof h (Obj a) = ''function'' \<and> a \<noteq> r
              \<longrightarrow> Obj a \<notin> set seen' \<and> h' ! a = h ! a"
  proof (intro allI impI)
    fix a assume a: "a < length h" and f: "typeof h (Obj a) = ''function'' \<and> a \<noteq> r"
    have "Obj a \<notin> reach h (Obj r)"
    proof
      assume "Obj a \<in> reach h (Obj r)"
      from reach_cases_typeof [OF this] f show False by simp
    qed
    with top(3,4) a show "Obj a \<notin> set seen' \<and> h' ! a = h ! a"
      by (simp add: frozen_at_def)
  qed
  have step: "get_property h obj key = Inr v \<and> typeof h v = ''function''
      \<longrightarrow> forEach_key h obj (key # keys) seen = forEach_key h obj keys seen"
    by simp
  from step run kinds skip show ?thesis by blast
qed

theorem immutable_skips_functions_witness:
  "typeof h_method (Obj 1) = ''function''
   \<and> get_property h_method (Obj 0) ''run'' = Inr (Obj 1)
   \<and> immutable_rec h_method (Obj 0) [] =
       Inr (Obj 0, [freeze_object (h_method ! 0), h_method ! 1, h_method ! 2], [Obj 0])
   \<and> forEach_key h_method (Obj 0) [''run''] [Obj 0] = Inr (h_method, [Obj 0])"
proof -
  have f: "typeof h_method (Obj 1) = ''function''"
    and g: "get_property h_method (Obj 0) ''run'' = Inr (Obj 1)"
    by (simp_all add: example_defs)
  from immutable_skips_functions [of h_method "Obj 0" "''run''" "Obj 1" "[]" "[Obj 0]" 0] f g
  have "forEach_key h_method (Obj 0) [''run''] [Obj 0] = forEach_key h_method (Obj 0) [] [Obj 0]"
    by blast
  with f g eval_method show ?thesis by simp
qed

end
